theory Spec2Isabelle
  imports Main "HOL-Library.Multiset"
begin

section \<open>Python values and string operations used by \<open>functions.py\<close>\<close>

text \<open>
  Strings are lists of characters; a character stands for one code point below 256, so
  \<open>length\<close> is Python's \<open>len\<close>. A value that may be Python's \<open>None\<close> is an
  \<open>option\<close>. Python's unbounded integers are \<open>int\<close>.
\<close>

type_synonym url = "string option"

datatype error = StoreError | ValueError | TypeError

text \<open>\<open>xs[:n]\<close>: a negative bound counts from the end of the list.\<close>

definition py_prefix :: "'a list \<Rightarrow> int \<Rightarrow> 'a list" where
  "py_prefix xs n = (if 0 \<le> n then take (nat n) xs else take (length xs - nat (- n)) xs)"

text \<open>\<open>sep.join(xs)\<close>\<close>

fun py_join :: "string \<Rightarrow> string list \<Rightarrow> string" where
  "py_join sep [] = []"
| "py_join sep [x] = x"
| "py_join sep (x # y # ys) = x @ sep @ py_join sep (y # ys)"

text \<open>\<open>s.find(sub)\<close>: the index of the first occurrence, \<open>None\<close> for Python's \<open>-1\<close>.\<close>

fun py_find :: "string \<Rightarrow> string \<Rightarrow> nat option" where
  "py_find sub [] = (if sub = [] then Some 0 else None)"
| "py_find sub (c # cs) =
     (if take (length sub) (c # cs) = sub then Some 0 else map_option Suc (py_find sub cs))"

text \<open>\<open>s.split(sep, 1)[-1]\<close>: everything after the first occurrence of \<open>sep\<close>, the
  whole string when \<open>sep\<close> does not occur.\<close>

definition split1_last :: "string \<Rightarrow> string \<Rightarrow> string" where
  "split1_last sep s = (case py_find sep s of None \<Rightarrow> s | Some i \<Rightarrow> drop (i + length sep) s)"

text \<open>\<open>s.split(sep, 1)[0]\<close>\<close>

definition split1_first :: "string \<Rightarrow> string \<Rightarrow> string" where
  "split1_first sep s = (case py_find sep s of None \<Rightarrow> s | Some i \<Rightarrow> take i s)"

text \<open>\<open>str.isspace\<close> on one character (code points below 256).\<close>

definition py_isspace :: "char \<Rightarrow> bool" where
  "py_isspace c = (let n = (of_char c :: nat) in
       (9 \<le> n \<and> n \<le> 13) \<or> (28 \<le> n \<and> n \<le> 32) \<or> n = 133 \<or> n = 160)"

text \<open>\<open>s.strip()\<close>\<close>

definition strip :: "string \<Rightarrow> string" where
  "strip s = rev (dropWhile py_isspace (rev (dropWhile py_isspace s)))"

text \<open>\<open>s.endswith(suffix)\<close>\<close>

definition endswith :: "string \<Rightarrow> string \<Rightarrow> bool" where
  "endswith s suffix = (length suffix \<le> length s \<and> drop (length s - length suffix) s = suffix)"

text \<open>\<open>s.split('/')[-1]\<close>, which is also \<open>os.path.basename(s)\<close> of \<open>posixpath\<close>:
  the text after the last slash.\<close>

definition last_segment :: "string \<Rightarrow> string" where
  "last_segment s = rev (takeWhile (\<lambda>c. c \<noteq> CHR ''/'') (rev s))"

text \<open>\<open>s.replace("None", "")\<close>: every occurrence, left to right, without overlap.\<close>

fun remove_None :: "string \<Rightarrow> string" where
  "remove_None [] = []"
| "remove_None (c # cs) =
     (if take 4 (c # cs) = ''None'' then remove_None (drop 3 cs) else c # remove_None cs)"

text \<open>\<open>s.rfind(c)\<close> for a single character, \<open>-1\<close> when it does not occur.\<close>

definition rfind_char :: "char \<Rightarrow> string \<Rightarrow> int" where
  "rfind_char c s = int (length s) - 1 - int (length (takeWhile (\<lambda>d. d \<noteq> c) (rev s)))"

text \<open>
  \<open>os.path.splitext(p)[0]\<close> of \<open>posixpath\<close>: the path up to its last dot, when that
  dot lies in the last path segment and some character other than a dot precedes it there.
\<close>

definition splitext_root :: "string \<Rightarrow> string" where
  "splitext_root p =
     (let sepIndex = rfind_char CHR ''/'' p;
          dotIndex = rfind_char CHR ''.'' p
      in if dotIndex > sepIndex \<and>
            (\<exists>c \<in> set (drop (nat (sepIndex + 1)) (take (nat dotIndex) p)). c \<noteq> CHR ''.'')
         then take (nat dotIndex) p else p)"

subsection \<open>\<open>urllib.parse.urlparse(s).path\<close>\<close>

text \<open>
  The path component as CPython 3.10 computes it: tab, carriage return and line feed are
  removed; a leading scheme (characters of \<open>scheme_chars\<close> before the first colon) and a
  network location after \<open>//\<close> are split off; a network location with an unmatched
  square bracket raises \<open>ValueError\<close>; fragment and query are cut at \<open>#\<close> and \<open>?\<close>;
  for the schemes of \<open>uses_params\<close>, parameters are cut at the first \<open>;\<close> of the last
  segment. No percent-escape is decoded.
\<close>

definition scheme_char :: "char \<Rightarrow> bool" where
  "scheme_char c = (c \<in> set (''abcdefghijklmnopqrstuvwxyz'' @ ''ABCDEFGHIJKLMNOPQRSTUVWXYZ''
                              @ ''0123456789'' @ ''+-.''))"

definition lower_char :: "char \<Rightarrow> char" where
  "lower_char c =
     (case map_of (zip ''ABCDEFGHIJKLMNOPQRSTUVWXYZ'' ''abcdefghijklmnopqrstuvwxyz'') c of
        None \<Rightarrow> c | Some l \<Rightarrow> l)"

definition lower :: "string \<Rightarrow> string" where
  "lower s = map lower_char s"

definition uses_params :: "string list" where
  "uses_params = ['''', ''ftp'', ''hdl'', ''prospero'', ''http'', ''imap'', ''https'',
                  ''shttp'', ''rtsp'', ''rtspu'', ''sip'', ''sips'', ''mms'', ''sftp'', ''tel'']"

text \<open>\<open>_splitnetloc(url, 2)\<close>: the text between the leading \<open>//\<close> and the first of
  \<open>/\<close>, \<open>?\<close>, \<open>#\<close>, and the rest.\<close>

definition splitnetloc :: "string \<Rightarrow> string \<times> string" where
  "splitnetloc url =
     (let body = drop 2 url;
          netloc = takeWhile (\<lambda>c. c \<notin> {CHR ''/'', CHR ''?'', CHR ''#''}) body
      in (netloc, drop (length netloc) body))"

text \<open>\<open>_splitparams(url)[0]\<close>\<close>

definition splitparams_path :: "string \<Rightarrow> string" where
  "splitparams_path url =
     (if CHR ''/'' \<in> set url
      then (let start = nat (rfind_char CHR ''/'' url)
            in case py_find '';'' (drop start url) of
                 None \<Rightarrow> url
               | Some i \<Rightarrow> take (start + i) url)
      else split1_first '';'' url)"

definition urlparse_path :: "string \<Rightarrow> error + string" where
  "urlparse_path s =
     (let url = filter (\<lambda>c. c \<notin> {CHR 0x09, CHR 0x0D, CHR 0x0A}) s;
          (scheme, url) =
             (case py_find '':'' url of
                None \<Rightarrow> ('''', url)
              | Some i \<Rightarrow>
                  if 0 < i \<and> (\<forall>c \<in> set (take i url). scheme_char c)
                  then (lower (take i url), drop (i + 1) url)
                  else ('''', url));
          (netloc, url) = (if take 2 url = ''//'' then splitnetloc url else ('''', url))
      in if (CHR ''['' \<in> set netloc \<and> CHR '']'' \<notin> set netloc) \<or>
            (CHR '']'' \<in> set netloc \<and> CHR ''['' \<notin> set netloc)
         then Inl ValueError
         else (let url = split1_first ''#'' url;
                   url = split1_first ''?'' url
               in Inr (if scheme \<in> set uses_params \<and> CHR '';'' \<in> set url
                       then splitparams_path url else url)))"

section \<open>The store\<close>

text \<open>
  The two tables the queries read. A document id is an opaque key, a chunk id an ordinal
  number. The embedding column is read only inside the store's own score expression and is
  not part of this model.
\<close>

record document =
  d_id :: string
  original_filename :: string

record chunk =
  c_id :: int
  summary_id :: string
  chunk_text :: string

record store =
  abc_table :: "document list"
  abc_chunks :: "chunk list"

text \<open>
  One \<open>client.execute\<close> call is answered by the next reply of the store: the call raises
  (\<open>Fault\<close>), or the query is evaluated (\<open>Answer n\<close>, where \<open>n\<close> is the value
  \<open>rand()\<close> orders by in that query). A run of a function is given by the list of replies to
  its successive calls and returns the replies it has not used; \<open>None\<close> means that the run
  needs more replies than the list holds. The queries are modelled by what they select;
  the source splices values into the query text between quotes, and a value with a quote
  or a backslash in it, which changes that text, is outside the model.
\<close>

datatype reply = Fault | Answer nat

text \<open>\<open>SELECT original_filename FROM abc_table WHERE id = '{summary_id}'\<close>\<close>

definition q_original_filename :: "store \<Rightarrow> string \<Rightarrow> string list" where
  "q_original_filename st sid = map original_filename (filter (\<lambda>d. d_id d = sid) (abc_table st))"

text \<open>\<open>SELECT original_filename FROM abc_table ORDER BY rand() LIMIT 1\<close>\<close>

definition q_random_filename :: "store \<Rightarrow> nat \<Rightarrow> string list" where
  "q_random_filename st n =
     (if abc_table st = [] then []
      else [original_filename (abc_table st ! (n mod length (abc_table st)))])"

section \<open>Filename / URL resolver\<close>

text \<open>\<open>f"{archive_base_url}{filename}"\<close>: an unset environment variable prints as \<open>None\<close>.\<close>

definition format_str :: "string option \<Rightarrow> string" where
  "format_str v = (case v of None \<Rightarrow> ''None'' | Some s \<Rightarrow> s)"

text \<open>Lines 93 to 97 (and 315 to 319): from the stored filename to the url.\<close>

definition file_url :: "string option \<Rightarrow> string \<Rightarrow> error + string" where
  "file_url archive_base_url stored =
     (let original_filename = strip (split1_last ''None'' stored);
          filename_without_ext = splitext_root original_filename
      in case urlparse_path filename_without_ext of
           Inl e \<Rightarrow> Inl e
         | Inr path \<Rightarrow> Inr (format_str archive_base_url @ last_segment path))"

fun get_random_filename :: "string option \<Rightarrow> store \<Rightarrow> reply list \<Rightarrow> (url \<times> reply list) option" where
  "get_random_filename base st [] = None"
| "get_random_filename base st (Fault # rs) = Some (None, rs)"
| "get_random_filename base st (Answer n # rs) =
     (case q_random_filename st n of
        [] \<Rightarrow> Some (None, rs)
      | stored # _ \<Rightarrow>
          (case file_url base stored of
             Inl e \<Rightarrow> Some (None, rs)
           | Inr u \<Rightarrow> Some (Some u, rs)))"

fun get_original_filename ::
  "string option \<Rightarrow> store \<Rightarrow> string \<Rightarrow> reply list \<Rightarrow> (url \<times> reply list) option" where
  "get_original_filename base st sid [] = None"
| "get_original_filename base st sid (Fault # rs) = get_random_filename base st rs"
| "get_original_filename base st sid (Answer n # rs) =
     (case q_original_filename st sid of
        [] \<Rightarrow> get_random_filename base st rs
      | stored # _ \<Rightarrow>
          (case file_url base stored of
             Inl e \<Rightarrow> get_random_filename base st rs
           | Inr u \<Rightarrow> Some (Some u, rs)))"

section \<open>Deduplicator / backfill\<close>

text \<open>The truth value of \<open>random_filename\<close> in \<open>if random_filename and ...\<close>.\<close>

definition truthy :: "url \<Rightarrow> bool" where
  "truthy u = (u \<noteq> None \<and> u \<noteq> Some [])"

text \<open>The \<open>for\<close> loop of lines 334 to 341 on the state
  \<open>(full_contexts, pdf_filenames, seen_filenames)\<close>.\<close>

fun collect_unique ::
  "int \<Rightarrow> (string \<times> url) list \<Rightarrow> string list \<times> url list \<times> url set
     \<Rightarrow> string list \<times> url list \<times> url set" where
  "collect_unique top_n [] s = s"
| "collect_unique top_n ((full_context, u) # chunks) (full_contexts, pdf_filenames, seen_filenames) =
     (if int (length full_contexts) \<ge> top_n then (full_contexts, pdf_filenames, seen_filenames)
      else if u \<notin> seen_filenames
      then collect_unique top_n chunks
             (full_contexts @ [full_context], pdf_filenames @ [u], insert u seen_filenames)
      else collect_unique top_n chunks (full_contexts, pdf_filenames, seen_filenames))"

text \<open>The \<open>while\<close> loop of lines 343 to 348.\<close>

function pad_filenames ::
  "string option \<Rightarrow> store \<Rightarrow> int \<Rightarrow> string list \<times> url list \<times> url set \<Rightarrow> reply list
     \<Rightarrow> ((string list \<times> url list \<times> url set) \<times> reply list) option" where
  "pad_filenames base st top_n (full_contexts, pdf_filenames, seen_filenames) rs =
     (if int (length pdf_filenames) < top_n
      then (case get_random_filename base st rs of
              None \<Rightarrow> None
            | Some (random_filename, rs') \<Rightarrow>
                if truthy random_filename \<and> random_filename \<notin> seen_filenames
                then pad_filenames base st top_n
                       (full_contexts @ [''No additional unique content available''],
                        pdf_filenames @ [random_filename],
                        insert random_filename seen_filenames) rs'
                else pad_filenames base st top_n (full_contexts, pdf_filenames, seen_filenames) rs')
      else Some ((full_contexts, pdf_filenames, seen_filenames), rs))"
  by pat_completeness auto
termination
  by (relation "measure (\<lambda>(base, st, top_n, s, rs). length rs)")
     (auto elim!: get_random_filename.elims split: list.splits sum.splits)

declare pad_filenames.simps [simp del]

definition deduplicate_results ::
  "string option \<Rightarrow> store \<Rightarrow> (string \<times> url) list \<Rightarrow> int \<Rightarrow> reply list
     \<Rightarrow> ((string list \<times> url list) \<times> reply list) option" where
  "deduplicate_results base st closest_chunks top_n rs =
     (if closest_chunks = []
      then Some ((replicate (nat top_n) ''No content available'',
                  replicate (nat top_n) (Some ''No file available'')), rs)
      else (case pad_filenames base st top_n (collect_unique top_n closest_chunks ([], [], {})) rs of
              None \<Rightarrow> None
            | Some ((full_contexts, pdf_filenames, seen_filenames), rs') \<Rightarrow>
                Some ((py_prefix full_contexts top_n, py_prefix pdf_filenames top_n), rs')))"

section \<open>Context expander\<close>



section \<open>Keyword stage\<close>

text \<open>
  The store's \<open>LIKE\<close>: in the pattern \<open>%\<close> stands for any text and \<open>_\<close> for any one
  character; every other character stands for itself. Words are spliced into a quoted
  literal of the query text; what a quote or a backslash in a word does to that text is
  outside this model. \<open>lower\<close> is the store's function on ASCII letters.
\<close>

fun like_match :: "string \<Rightarrow> string \<Rightarrow> bool" where
  "like_match [] t = (t = [])"
| "like_match (p # ps) [] = (p = CHR ''%'' \<and> like_match ps [])"
| "like_match (p # ps) (c # cs) =
     (if p = CHR ''%'' then like_match ps (c # cs) \<or> like_match (p # ps) cs
      else (p = CHR ''_'' \<or> p = c) \<and> like_match ps cs)"

text \<open>\<open>word_query = '%' + '%'.join(important_words) + '%'\<close>\<close>

definition word_query :: "string list \<Rightarrow> string" where
  "word_query important_words = ''%'' @ py_join ''%'' important_words @ ''%''"

text \<open>\<open>SELECT ... FROM abc_chunks WHERE lower(chunk_text) LIKE lower('{word_query}')\<close>\<close>

definition keyword_matching_query :: "store \<Rightarrow> string list \<Rightarrow> chunk list" where
  "keyword_matching_query st important_words =
     filter (\<lambda>c. like_match (lower (word_query important_words)) (lower (chunk_text c)))
            (abc_chunks st)"

text \<open>Stage 1 of \<open>query_clickhouse_word_with_multi_stage\<close> (line 229); a fault of the
  store is not caught there.\<close>

fun matched_chunks ::
  "store \<Rightarrow> string list \<Rightarrow> reply list \<Rightarrow> ((error + chunk list) \<times> reply list) option" where
  "matched_chunks st important_words [] = None"
| "matched_chunks st important_words (Fault # rs) = Some (Inl StoreError, rs)"
| "matched_chunks st important_words (Answer n # rs) =
     Some (Inr (keyword_matching_query st important_words), rs)"

section \<open>Description extractor\<close>

text \<open>Lines 273 to 276: the filename the document is looked up by.\<close>

definition lookup_filename :: "string \<Rightarrow> string" where
  "lookup_filename filename =
     (let filename = last_segment filename;
          filename = (if endswith filename ''.pdf'' then filename else filename @ ''.pdf'')
      in remove_None filename)"

text \<open>\<open>SELECT id FROM abc_table WHERE original_filename = '{filename}'\<close>\<close>

definition q_id_by_filename :: "store \<Rightarrow> string \<Rightarrow> string list" where
  "q_id_by_filename st filename =
     map d_id (filter (\<lambda>d. original_filename d = filename) (abc_table st))"

text \<open>\<open>SELECT chunk_text FROM abc_chunks WHERE summary_id = '{summary_id}' ORDER BY id ASC
  LIMIT 1\<close>\<close>

definition q_first_chunk :: "store \<Rightarrow> string \<Rightarrow> string list" where
  "q_first_chunk st sid =
     take 1 (map chunk_text (sort_key c_id (filter (\<lambda>c. summary_id c = sid) (abc_chunks st))))"

text \<open>Line 297: the text cut to 247 characters and three dots when it is longer than
  250.\<close>

definition description :: "string \<Rightarrow> string" where
  "description full_description =
     (if length full_description > 250 then take 247 full_description @ ''...''
      else full_description)"

text \<open>
  \<open>get_pdf_description\<close> opens a connection of its own to the same store (with the
  configuration the caller's connection was built from) and catches every exception.
\<close>

fun get_pdf_description :: "store \<Rightarrow> string \<Rightarrow> reply list \<Rightarrow> (string \<times> reply list) option" where
  "get_pdf_description st filename [] = None"
| "get_pdf_description st filename (Fault # rs) = Some (''Error retrieving description.'', rs)"
| "get_pdf_description st filename (Answer n # rs) =
     (case q_id_by_filename st (lookup_filename filename) of
        [] \<Rightarrow> Some (''File not found.'', rs)
      | sid # _ \<Rightarrow>
          (case rs of
             [] \<Rightarrow> None
           | Fault # rs' \<Rightarrow> Some (''Error retrieving description.'', rs')
           | Answer m # rs' \<Rightarrow>
               (case q_first_chunk st sid of
                  [] \<Rightarrow> Some (''Description not found.'', rs')
                | full_description # _ \<Rightarrow> Some (description full_description, rs'))))"

section \<open>Pipeline orchestrator: \<open>process_query_clickhouse_pdf\<close>\<close>







section \<open>Notions used to state the properties, and example corpora\<close>

text \<open>The candidates that carry the first occurrence of each url, in input order.\<close>

fun first_occurrences :: "('a \<times> 'b) list \<Rightarrow> ('a \<times> 'b) list" where
  "first_occurrences [] = []"
| "first_occurrences (x # xs) = x # first_occurrences (filter (\<lambda>y. snd y \<noteq> snd x) xs)"

text \<open>The non-empty urls that \<open>get_random_filename\<close> can return for the documents of
  the corpus.\<close>

definition corpus_urls :: "string option \<Rightarrow> store \<Rightarrow> url list" where
  "corpus_urls base st =
     [Some u. d \<leftarrow> abc_table st,
              u \<leftarrow> (case file_url base (original_filename d) of Inl e \<Rightarrow> [] | Inr u \<Rightarrow> [u]),
              u \<noteq> []]"

text \<open>What the \<open>for\<close> loop and the \<open>while\<close> loop of \<open>deduplicate_results\<close>
  keep true of their state.\<close>

definition dedup_inv :: "string list \<times> url list \<times> url set \<Rightarrow> bool" where
  "dedup_inv s = (case s of (ctxs, fns, seen) \<Rightarrow>
     length ctxs = length fns \<and> seen = set fns \<and> distinct fns)"

text \<open>The entries the \<open>for\<close> loop collects, and the corpus urls that are not among
  them: what the \<open>while\<close> loop can still add.\<close>

definition kept :: "int \<Rightarrow> (string \<times> url) list \<Rightarrow> (string \<times> url) list" where
  "kept top_n closest_chunks = take (nat top_n) (first_occurrences closest_chunks)"

definition fresh_urls :: "string option \<Rightarrow> store \<Rightarrow> int \<Rightarrow> (string \<times> url) list \<Rightarrow> url list" where
  "fresh_urls base st top_n closest_chunks =
     filter (\<lambda>u. u \<notin> snd ` set (kept top_n closest_chunks)) (remdups (corpus_urls base st))"

text \<open>Example corpora and candidates for the properties below.\<close>

definition archive :: "string option" where
  "archive = Some ''https://archive.example/''"

definition one_document :: store where
  "one_document = \<lparr>abc_table = [\<lparr>d_id = ''d1'', original_filename = ''a.pdf''\<rparr>], abc_chunks = []\<rparr>"

definition two_documents :: store where
  "two_documents = \<lparr>abc_table = [\<lparr>d_id = ''d1'', original_filename = ''a.pdf''\<rparr>,
                                 \<lparr>d_id = ''d2'', original_filename = ''b.pdf''\<rparr>], abc_chunks = []\<rparr>"

definition three_documents :: store where
  "three_documents = \<lparr>abc_table = [\<lparr>d_id = ''d1'', original_filename = ''a.pdf''\<rparr>,
                                   \<lparr>d_id = ''d2'', original_filename = ''None/files/b.pdf''\<rparr>,
                                   \<lparr>d_id = ''d3'', original_filename = ''c.pdf''\<rparr>], abc_chunks = []\<rparr>"

definition duplicated_candidates :: "(string \<times> url) list" where
  "duplicated_candidates = [(''x'', Some ''https://archive.example/a''),
                            (''y'', Some ''https://archive.example/a''),
                            (''z'', Some ''https://archive.example/b'')]"

text \<open>The text contains the words in the given order, each after the end of the one
  before.\<close>

fun contains_in_order :: "string list \<Rightarrow> string \<Rightarrow> bool" where
  "contains_in_order [] t = True"
| "contains_in_order (w # ws) [] = (w = [] \<and> contains_in_order ws [])"
| "contains_in_order (w # ws) (c # cs) =
     ((take (length w) (c # cs) = w \<and> contains_in_order ws (drop (length w) (c # cs)))
      \<or> contains_in_order (w # ws) cs)"

text \<open>A word without \<open>%\<close>, \<open>_\<close>, backslash and quote.\<close>

definition plain_word :: "string \<Rightarrow> bool" where
  "plain_word w = (\<forall>c \<in> set w. c \<notin> {CHR ''%'', CHR ''_'', CHR 0x5C, CHR 0x27})"

definition rent_corpus :: store where
  "rent_corpus = \<lparr>abc_table = [\<lparr>d_id = ''d1'', original_filename = ''housing.pdf''\<rparr>],
     abc_chunks = [\<lparr>c_id = 0, summary_id = ''d1'', chunk_text = ''Rent control laws''\<rparr>,
                   \<lparr>c_id = 1, summary_id = ''d1'', chunk_text = ''Control of the rent''\<rparr>,
                   \<lparr>c_id = 2, summary_id = ''d1'', chunk_text = ''The RENT is under strict CONTROL''\<rparr>,
                   \<lparr>c_id = 3, summary_id = ''d1'', chunk_text = ''axb''\<rparr>]\<rparr>"


definition report_corpus :: store where
  "report_corpus = \<lparr>abc_table = [\<lparr>d_id = ''r1'', original_filename = ''report.pdf''\<rparr>,
                                 \<lparr>d_id = ''r2'', original_filename = ''memo.pdf''\<rparr>],
     abc_chunks = [\<lparr>c_id = 3, summary_id = ''r1'', chunk_text = ''appendix''\<rparr>,
                   \<lparr>c_id = 1, summary_id = ''r1'', chunk_text = replicate 300 CHR ''x''\<rparr>,
                   \<lparr>c_id = 0, summary_id = ''r2'', chunk_text = ''short memo''\<rparr>]\<rparr>"






definition bracket_corpus :: store where
  "bracket_corpus = \<lparr>abc_table = [\<lparr>d_id = ''d1'', original_filename = ''//[''\<rparr>], abc_chunks = []\<rparr>"

definition empty_corpus :: store where
  "empty_corpus = \<lparr>abc_table = [], abc_chunks = []\<rparr>"


section \<open>Properties\<close>

subsection \<open>Deduplicator / backfill\<close>

text \<open>
  C8. On an empty candidate list \<open>deduplicate_results\<close> asks the store nothing and returns
  \<open>top_n\<close> copies of the sentinel "No content available" as contexts and \<open>top_n\<close> copies of
  the different sentinel "No file available" as urls; for a positive \<open>top_n\<close> neither list
  is empty.
\<close>

theorem deduplicate_results_empty_input:
  "deduplicate_results base st [] top_n rs =
     Some ((replicate (nat top_n) ''No content available'',
            replicate (nat top_n) (Some ''No file available'')), rs)
   \<and> length (replicate (nat top_n) ''No content available'') = nat top_n
   \<and> length (replicate (nat top_n) (Some ''No file available'')) = nat top_n
   \<and> ''No content available'' \<noteq> ''No file available''
   \<and> (0 < top_n \<longrightarrow>
        (\<exists>ctxs fns rs'. deduplicate_results base st [] top_n rs = Some ((ctxs, fns), rs')
           \<and> ctxs \<noteq> [] \<and> fns \<noteq> []
           \<and> set ctxs = {''No content available''} \<and> set fns = {Some ''No file available''}))"
  by (auto simp: deduplicate_results_def)

theorem deduplicate_results_empty_input_witness:
  "(0::int) < 5 \<and>
   deduplicate_results (Some ''https://archive.example/'') \<lparr>abc_table = [], abc_chunks = []\<rparr> [] 5 []
     = Some ((replicate 5 ''No content available'', replicate 5 (Some ''No file available'')), [])
   \<and> (\<exists>ctxs fns rs'.
        deduplicate_results (Some ''https://archive.example/'') \<lparr>abc_table = [], abc_chunks = []\<rparr> [] 5 []
          = Some ((ctxs, fns), rs')
        \<and> ctxs \<noteq> [] \<and> fns \<noteq> [])"
  using deduplicate_results_empty_input
          [of "Some ''https://archive.example/''" "\<lparr>abc_table = [], abc_chunks = []\<rparr>" 5 "[]"]
  by auto

lemma set_first_occurrences: "snd ` set (first_occurrences xs) = snd ` set xs"
proof (induction xs rule: first_occurrences.induct)
  case 1
  then show ?case by simp
next
  case (2 x xs)
  then show ?case by force
qed

lemma first_occurrences_subset: "set (first_occurrences xs) \<subseteq> set xs"
  by (induction xs rule: first_occurrences.induct) auto

lemma distinct_first_occurrences: "distinct (map snd (first_occurrences xs))"
proof (induction xs rule: first_occurrences.induct)
  case 1
  then show ?case by simp
next
  case (2 x xs)
  have "snd x \<notin> snd ` set (first_occurrences (filter (\<lambda>y. snd y \<noteq> snd x) xs))"
    using first_occurrences_subset[of "filter (\<lambda>y. snd y \<noteq> snd x) xs"] by auto
  with 2 show ?case by simp
qed

lemma filter_not_insert:
  "filter (\<lambda>y. snd y \<noteq> u) (filter (\<lambda>y. snd y \<notin> seen) cs)
     = filter (\<lambda>y. snd y \<notin> insert u seen) cs"
  by (induction cs) auto

lemma collect_unique_eq:
  "seen = set fns \<Longrightarrow> length ctxs = length fns \<Longrightarrow>
   collect_unique top_n cs (ctxs, fns, seen) =
     (let sel = take (nat top_n - length fns)
                  (first_occurrences (filter (\<lambda>y. snd y \<notin> seen) cs))
      in (ctxs @ map fst sel, fns @ map snd sel, seen \<union> set (map snd sel)))"
proof (induction cs arbitrary: ctxs fns seen)
  case Nil
  then show ?case by simp
next
  case (Cons c cs)
  obtain x u where c: "c = (x, u)" by (cases c)
  show ?case
  proof (cases "int (length ctxs) \<ge> top_n")
    case True
    then have "nat top_n - length fns = 0" using Cons.prems by simp
    then show ?thesis using True c by simp
  next
    case False
    then obtain k where k: "nat top_n - length fns = Suc k"
      using Cons.prems by (cases "nat top_n - length fns") auto
    show ?thesis
    proof (cases "u \<in> seen")
      case True
      then show ?thesis using False c Cons.IH[OF Cons.prems] by simp
    next
      case notin: False
      have ih: "collect_unique top_n cs (ctxs @ [x], fns @ [u], insert u seen) =
         (let sel = take (nat top_n - length (fns @ [u]))
                  (first_occurrences (filter (\<lambda>y. snd y \<notin> insert u seen) cs))
          in ((ctxs @ [x]) @ map fst sel, (fns @ [u]) @ map snd sel, insert u seen \<union> set (map snd sel)))"
        by (rule Cons.IH) (use Cons.prems in auto)
      have k': "nat top_n - length (fns @ [u]) = k" using k by simp
      have fo: "first_occurrences (filter (\<lambda>y. snd y \<notin> seen) (c # cs))
                  = (x, u) # first_occurrences (filter (\<lambda>y. snd y \<notin> insert u seen) cs)"
        using notin c by (simp add: filter_not_insert del: insert_iff filter_filter)
      have "collect_unique top_n (c # cs) (ctxs, fns, seen)
              = collect_unique top_n cs (ctxs @ [x], fns @ [u], insert u seen)"
        using False notin c by simp
      also have "\<dots> = (let sel = take k
                  (first_occurrences (filter (\<lambda>y. snd y \<notin> insert u seen) cs))
          in ((ctxs @ [x]) @ map fst sel, (fns @ [u]) @ map snd sel, insert u seen \<union> set (map snd sel)))"
        unfolding ih k' ..
      also have "\<dots> = (let sel = take (nat top_n - length fns)
                  (first_occurrences (filter (\<lambda>y. snd y \<notin> seen) (c # cs)))
          in (ctxs @ map fst sel, fns @ map snd sel, seen \<union> set (map snd sel)))"
        unfolding fo k by (simp add: Let_def del: insert_iff)
      finally show ?thesis .
    qed
  qed
qed

lemma q_random_filename_in_table:
  "q_random_filename st n = stored # rest \<Longrightarrow>
     \<exists>d \<in> set (abc_table st). original_filename d = stored"
  by (auto simp: q_random_filename_def split: if_splits)

lemma in_corpus_urls:
  "u \<in> set (corpus_urls base st) \<longleftrightarrow>
     (\<exists>d \<in> set (abc_table st). \<exists>v. file_url base (original_filename d) = Inr v \<and> v \<noteq> [] \<and> u = Some v)"
  by (force simp: corpus_urls_def split: sum.splits)

lemma get_random_filename_in_corpus:
  assumes "get_random_filename base st rs = Some (u, rs')" and "truthy u"
  shows "u \<in> set (corpus_urls base st)"
proof (cases rs)
  case Nil
  with assms show ?thesis by simp
next
  case (Cons r rs0)
  show ?thesis
  proof (cases r)
    case Fault
    with Cons assms show ?thesis by (simp add: truthy_def)
  next
    case (Answer n)
    with Cons assms obtain stored rest v where
      q: "q_random_filename st n = stored # rest" and
      f: "file_url base stored = Inr v" and u: "u = Some v"
      by (auto simp: truthy_def split: list.splits sum.splits)
    from q obtain d where "d \<in> set (abc_table st)" "original_filename d = stored"
      by (blast dest: q_random_filename_in_table)
    with f u assms(2) show ?thesis
      by (auto simp: in_corpus_urls truthy_def)
  qed
qed

lemma corpus_url_drawn:
  assumes "u \<in> set (corpus_urls base st)"
  shows "\<exists>n. \<forall>rs. get_random_filename base st (Answer n # rs) = Some (u, rs)"
proof -
  from assms obtain d v where d: "d \<in> set (abc_table st)"
    and f: "file_url base (original_filename d) = Inr v" and u: "u = Some v"
    by (auto simp: in_corpus_urls)
  from d obtain i where i: "i < length (abc_table st)" "abc_table st ! i = d"
    by (auto simp: in_set_conv_nth)
  then have "q_random_filename st i = [original_filename d]"
    by (auto simp: q_random_filename_def)
  with f u have "\<forall>rs. get_random_filename base st (Answer i # rs) = Some (u, rs)"
    by simp
  then show ?thesis ..
qed

lemma corpus_urls_truthy: "u \<in> set (corpus_urls base st) \<Longrightarrow> truthy u"
  by (auto simp: in_corpus_urls truthy_def)

lemma pad_filenames_result:
  "pad_filenames base st top_n s rs = Some (s', rs') \<Longrightarrow> dedup_inv s \<Longrightarrow>
     dedup_inv s' \<and>
     (\<exists>extra. fst (snd s') = fst (snd s) @ extra \<and>
              fst s' = fst s @ replicate (length extra) ''No additional unique content available'' \<and>
              set extra \<subseteq> set (corpus_urls base st)) \<and>
     (int (length (fst (snd s))) \<le> top_n \<longrightarrow> int (length (fst (snd s'))) = top_n)"
proof (induction base st top_n s rs rule: pad_filenames.induct)
  case (1 base st top_n ctxs fns seen rs)
  show ?case
  proof (cases "int (length fns) < top_n")
    case False
    with "1.prems" show ?thesis by (auto simp: pad_filenames.simps)
  next
    case True
    with "1.prems"(1) obtain u rs1 where g: "get_random_filename base st rs = Some (u, rs1)"
      by (auto simp: pad_filenames.simps split: option.splits)
    show ?thesis
    proof (cases "truthy u \<and> u \<notin> seen")
      case no: False
      with True g "1.prems" have
        "pad_filenames base st top_n (ctxs, fns, seen) rs1 = Some (s', rs')"
        by (auto simp: pad_filenames.simps[of _ _ _ _ _ _ rs])
      from "1.IH"(2)[OF True g refl no this "1.prems"(2)] show ?thesis .
    next
      case yes: True
      let ?s1 = "(ctxs @ [''No additional unique content available''], fns @ [u], insert u seen)"
      from True g yes "1.prems" have p:
        "pad_filenames base st top_n ?s1 rs1 = Some (s', rs')"
        by (auto simp: pad_filenames.simps[of _ _ _ _ _ _ rs])
      have inv1: "dedup_inv ?s1" using "1.prems"(2) yes by (auto simp: dedup_inv_def)
      from "1.IH"(1)[OF True g refl yes p inv1]
      obtain extra where e: "dedup_inv s'"
        "fst (snd s') = (fns @ [u]) @ extra"
        "fst s' = (ctxs @ [''No additional unique content available'']) @
                     replicate (length extra) ''No additional unique content available''"
        "set extra \<subseteq> set (corpus_urls base st)"
        "int (length (fns @ [u])) \<le> top_n \<longrightarrow> int (length (fst (snd s'))) = top_n"
        by auto
      have uc: "u \<in> set (corpus_urls base st)"
        using g yes by (blast intro: get_random_filename_in_corpus)
      have "fst (snd s') = fns @ (u # extra)" using e(2) by simp
      moreover have "fst s' = ctxs @ replicate (length (u # extra)) ''No additional unique content available''"
        using e(3) by (simp add: replicate_app_Cons_same)
      moreover have "set (u # extra) \<subseteq> set (corpus_urls base st)" using uc e(4) by simp
      ultimately show ?thesis using e(1) e(5) True
        by (intro conjI exI[of _ "u # extra"]) auto
    qed
  qed
qed

lemma pad_filenames_diverges:
  "int (length fns) + int (card (set (corpus_urls base st) - seen)) < top_n \<Longrightarrow>
     pad_filenames base st top_n (ctxs, fns, seen) rs = None"
proof (induction base st top_n "(ctxs, fns, seen)" rs arbitrary: ctxs fns seen rule: pad_filenames.induct)
  case (1 base st top_n ctxs fns seen rs)
  have lt: "int (length fns) < top_n" using "1.prems" by linarith
  show ?case
  proof (cases "get_random_filename base st rs")
    case None
    with lt show ?thesis by (simp add: pad_filenames.simps)
  next
    case (Some p)
    obtain u rs1 where p: "p = (u, rs1)" by (cases p)
    show ?thesis
    proof (cases "truthy u \<and> u \<notin> seen")
      case no: False
      have "pad_filenames base st top_n (ctxs, fns, seen) rs1 = None"
        using "1.hyps"(2)[OF lt Some[unfolded p] refl no] "1.prems" by simp
      with lt Some p no show ?thesis by (auto simp: pad_filenames.simps[of _ _ _ _ _ _ rs])
    next
      case yes: True
      have uc: "u \<in> set (corpus_urls base st) - seen"
        using Some p yes by (auto intro: get_random_filename_in_corpus)
      have fin: "finite (set (corpus_urls base st) - seen)" by simp
      have "set (corpus_urls base st) - insert u seen = (set (corpus_urls base st) - seen) - {u}"
        by auto
      then have "card (set (corpus_urls base st) - insert u seen)
                   = card (set (corpus_urls base st) - seen) - 1"
        using uc by (simp add: card_Diff_singleton)
      moreover have "card (set (corpus_urls base st) - seen) \<ge> 1"
        using uc fin by (metis One_nat_def Suc_leI card_gt_0_iff empty_iff)
      ultimately have "int (length (fns @ [u])) +
            int (card (set (corpus_urls base st) - insert u seen)) < top_n"
        using "1.prems" by simp
      from "1.hyps"(1)[OF lt Some[unfolded p] refl yes this]
      show ?thesis using lt Some p yes by (auto simp: pad_filenames.simps[of _ _ _ _ _ _ rs])
    qed
  qed
qed

lemma pad_filenames_returns:
  "top_n \<le> int (length fns) + int (card (set (corpus_urls base st) - seen)) \<Longrightarrow>
     \<exists>rs s'. pad_filenames base st top_n (ctxs, fns, seen) rs = Some (s', [])"
proof (induction "nat (top_n - int (length fns))" arbitrary: ctxs fns seen)
  case 0
  then have "\<not> int (length fns) < top_n" by simp
  then have "pad_filenames base st top_n (ctxs, fns, seen) [] = Some ((ctxs, fns, seen), [])"
    by (simp add: pad_filenames.simps)
  then show ?case by blast
next
  case (Suc k)
  then have lt: "int (length fns) < top_n" by linarith
  with Suc.prems have "card (set (corpus_urls base st) - seen) > 0" by linarith
  then obtain u where u: "u \<in> set (corpus_urls base st)" "u \<notin> seen"
    by (metis DiffE card_gt_0_iff ex_in_conv)
  from corpus_url_drawn[OF u(1)] obtain n where
    n: "\<And>rs. get_random_filename base st (Answer n # rs) = Some (u, rs)" by blast
  have "set (corpus_urls base st) - insert u seen = (set (corpus_urls base st) - seen) - {u}"
    by auto
  then have c: "card (set (corpus_urls base st) - insert u seen)
                   = card (set (corpus_urls base st) - seen) - 1"
    using u by (simp add: card_Diff_singleton)
  have k: "k = nat (top_n - int (length (fns @ [u])))" using Suc.hyps(2) by simp
  have le: "top_n \<le> int (length (fns @ [u])) + int (card (set (corpus_urls base st) - insert u seen))"
    using Suc.prems c \<open>card (set (corpus_urls base st) - seen) > 0\<close> by simp
  from Suc.hyps(1)[OF k le] obtain rs s' where
    r: "pad_filenames base st top_n
          (ctxs @ [''No additional unique content available''], fns @ [u], insert u seen) rs
        = Some (s', [])" by blast
  have "pad_filenames base st top_n (ctxs, fns, seen) (Answer n # rs) = Some (s', [])"
    using lt n u corpus_urls_truthy[OF u(1)] r
    by (simp add: pad_filenames.simps[of _ _ _ _ _ _ "Answer n # rs"])
  then show ?case by blast
qed

lemma collect_unique_kept:
  "collect_unique top_n cs ([], [], {}) =
     (map fst (kept top_n cs), map snd (kept top_n cs), snd ` set (kept top_n cs))"
  using collect_unique_eq[of "{}" "[]" "[]" top_n cs] by (simp add: kept_def Let_def)

lemma dedup_inv_kept:
  "dedup_inv (map fst (kept top_n cs), map snd (kept top_n cs), snd ` set (kept top_n cs))"
proof -
  have "distinct (take (nat top_n) (map snd (first_occurrences cs)))"
    using distinct_first_occurrences[of cs] by (rule distinct_take)
  then have "distinct (map snd (kept top_n cs))" by (simp add: kept_def take_map)
  then show ?thesis by (simp add: dedup_inv_def)
qed

lemma length_kept_le: "int (length (kept top_n cs)) \<le> top_n \<or> top_n < 0"
  by (cases "top_n < 0") (auto simp: kept_def)

lemma card_fresh:
  "card (set (corpus_urls base st) - snd ` set (kept top_n cs)) = length (fresh_urls base st top_n cs)"
proof -
  have "distinct (fresh_urls base st top_n cs)" by (simp add: fresh_urls_def)
  then have "length (fresh_urls base st top_n cs) = card (set (fresh_urls base st top_n cs))"
    by (simp add: distinct_card)
  moreover have "set (fresh_urls base st top_n cs) = set (corpus_urls base st) - snd ` set (kept top_n cs)"
    by (auto simp: fresh_urls_def)
  ultimately show ?thesis by simp
qed

lemma deduplicate_results_Some:
  assumes "cs \<noteq> []" and "deduplicate_results base st cs top_n rs = Some ((ctxs, fns), rs')"
  shows "\<exists>ctxs' fns' extra. 
           pad_filenames base st top_n
             (map fst (kept top_n cs), map snd (kept top_n cs), snd ` set (kept top_n cs)) rs
             = Some ((ctxs', fns', set fns'), rs') \<and>
           ctxs = py_prefix ctxs' top_n \<and> fns = py_prefix fns' top_n \<and>
           distinct fns' \<and> length ctxs' = length fns' \<and>
           fns' = map snd (kept top_n cs) @ extra \<and>
           ctxs' = map fst (kept top_n cs) @ replicate (length extra) ''No additional unique content available'' \<and>
           set extra \<subseteq> set (corpus_urls base st) \<and>
           (0 \<le> top_n \<longrightarrow> length fns' = nat top_n)"
proof -
  from assms obtain ctxs' fns' seen' where
    p: "pad_filenames base st top_n
             (map fst (kept top_n cs), map snd (kept top_n cs), snd ` set (kept top_n cs)) rs
             = Some ((ctxs', fns', seen'), rs')"
    and r: "ctxs = py_prefix ctxs' top_n" "fns = py_prefix fns' top_n"
    by (auto simp: deduplicate_results_def collect_unique_kept split: option.splits)
  from pad_filenames_result[OF p dedup_inv_kept]
  obtain extra where e: "dedup_inv (ctxs', fns', seen')"
    "fns' = map snd (kept top_n cs) @ extra"
    "ctxs' = map fst (kept top_n cs) @ replicate (length extra) ''No additional unique content available''"
    "set extra \<subseteq> set (corpus_urls base st)"
    "int (length (kept top_n cs)) \<le> top_n \<longrightarrow> int (length fns') = top_n"
    by auto
  have "0 \<le> top_n \<longrightarrow> length fns' = nat top_n"
    using e(5) length_kept_le[of top_n cs] by auto
  with p r e show ?thesis by (auto simp: dedup_inv_def)
qed

lemma deduplicate_results_lengths:
  assumes "cs \<noteq> []" and "0 \<le> top_n"
      and "deduplicate_results base st cs top_n rs = Some ((ctxs, fns), rs')"
  shows "length ctxs = nat top_n \<and> length fns = nat top_n \<and> distinct fns \<and>
         (\<exists>extra. fns = map snd (kept top_n cs) @ extra \<and>
            ctxs = map fst (kept top_n cs)
                     @ replicate (length extra) ''No additional unique content available'' \<and>
            set extra \<subseteq> set (corpus_urls base st))"
proof -
  from deduplicate_results_Some[OF assms(1,3)] obtain ctxs' fns' extra where
    e: "ctxs = py_prefix ctxs' top_n" "fns = py_prefix fns' top_n" "distinct fns'"
       "length ctxs' = length fns'"
       "fns' = map snd (kept top_n cs) @ extra"
       "ctxs' = map fst (kept top_n cs)
                  @ replicate (length extra) ''No additional unique content available''"
       "set extra \<subseteq> set (corpus_urls base st)"
       "length fns' = nat top_n"
    using assms(2) by auto
  have c: "ctxs = ctxs'" and f: "fns = fns'"
    using e(1,2,4,8) assms(2) by (simp_all add: py_prefix_def)
  show ?thesis using c f e(3,4,5,6,7,8) by auto
qed

lemma deduplicate_results_enough_input:
  assumes "cs \<noteq> []" and "0 \<le> top_n" and "nat top_n \<le> length (first_occurrences cs)"
  shows "deduplicate_results base st cs top_n rs =
           Some ((map fst (kept top_n cs), map snd (kept top_n cs)), rs)"
proof -
  from assms(3) have l: "length (kept top_n cs) = nat top_n" by (simp add: kept_def)
  then have "\<not> int (length (map snd (kept top_n cs))) < top_n" by simp
  then have "pad_filenames base st top_n
             (map fst (kept top_n cs), map snd (kept top_n cs), snd ` set (kept top_n cs)) rs
           = Some ((map fst (kept top_n cs), map snd (kept top_n cs),
              snd ` set (kept top_n cs)), rs)"
    by (simp add: pad_filenames.simps)
  then show ?thesis
    using assms l by (simp add: deduplicate_results_def collect_unique_kept py_prefix_def)
qed

lemma deduplicate_results_diverges:
  assumes "cs \<noteq> []"
      and "length (kept top_n cs) + length (fresh_urls base st top_n cs) < nat top_n"
  shows "deduplicate_results base st cs top_n rs = None"
proof -
  from assms(2) have "int (length (map snd (kept top_n cs)))
         + int (card (set (corpus_urls base st) - snd ` set (kept top_n cs))) < top_n"
    by (simp add: card_fresh)
  then have "pad_filenames base st top_n
      (map fst (kept top_n cs), map snd (kept top_n cs), snd ` set (kept top_n cs)) rs = None"
    by (rule pad_filenames_diverges)
  with assms(1) show ?thesis
    by (simp add: deduplicate_results_def collect_unique_kept)
qed

lemma deduplicate_results_can_return:
  assumes "cs \<noteq> []"
      and "nat top_n \<le> length (kept top_n cs) + length (fresh_urls base st top_n cs)"
  shows "\<exists>rs. deduplicate_results base st cs top_n rs \<noteq> None"
proof -
  from assms(2) have "top_n \<le> int (length (map snd (kept top_n cs)))
         + int (card (set (corpus_urls base st) - snd ` set (kept top_n cs)))"
    by (simp add: card_fresh)
  from pad_filenames_returns[OF this] obtain rs s' where
    "pad_filenames base st top_n
      (map fst (kept top_n cs), map snd (kept top_n cs), snd ` set (kept top_n cs)) rs
       = Some (s', [])" by blast
  then have "deduplicate_results base st cs top_n rs \<noteq> None"
    using assms(1) by (simp add: deduplicate_results_def collect_unique_kept split: prod.splits)
  then show ?thesis ..
qed

text \<open>
  C1 (as amended). For a non-empty candidate list and \<open>top_n \<ge> 0\<close>, every result that
  \<open>deduplicate_results\<close> returns has exactly \<open>top_n\<close> contexts and \<open>top_n\<close> urls, the
  urls are pairwise distinct, the leading entries are the first occurrences of the distinct
  urls of the input in input order (the first \<open>top_n\<close> of them), and every further entry
  is a filler whose url is a url of the corpus. When the input holds at least \<open>top_n\<close>
  distinct urls the function returns these without asking the store. A non-empty corpus
  alone does not make it return: see the counterexample.
\<close>

theorem deduplicate_results_entries:
  assumes "closest_chunks \<noteq> []" and "0 \<le> top_n"
  shows "(\<forall>rs ctxs fns rs'.
            deduplicate_results base st closest_chunks top_n rs = Some ((ctxs, fns), rs') \<longrightarrow>
              length ctxs = nat top_n \<and> length fns = nat top_n \<and> distinct fns \<and>
              (\<exists>extra. fns = map snd (kept top_n closest_chunks) @ extra \<and>
                 ctxs = map fst (kept top_n closest_chunks)
                          @ replicate (length extra) ''No additional unique content available'' \<and>
                 set extra \<subseteq> set (corpus_urls base st)))
       \<and> (nat top_n \<le> length (first_occurrences closest_chunks) \<longrightarrow>
            (\<forall>rs. deduplicate_results base st closest_chunks top_n rs =
                    Some ((map fst (kept top_n closest_chunks),
                           map snd (kept top_n closest_chunks)), rs)))"
  using deduplicate_results_lengths[OF assms] deduplicate_results_enough_input[OF assms]
  by blast

text \<open>
  C2 (as amended). For a non-empty candidate list \<open>deduplicate_results\<close> returns for some
  sequence of replies of the store if and only if the kept input entries together with the
  distinct non-empty corpus urls not among them reach \<open>top_n\<close>. When they do not (the
  corpus of unique documents is exhausted), the loop of lines 343 to 348 has not ended
  after any number of replies; and a result with fewer than \<open>top_n\<close> entries is never
  returned.
\<close>

theorem deduplicate_results_returns_iff:
  assumes "closest_chunks \<noteq> []"
  shows "((\<exists>rs. deduplicate_results base st closest_chunks top_n rs \<noteq> None) \<longleftrightarrow>
            nat top_n \<le> length (kept top_n closest_chunks)
                          + length (fresh_urls base st top_n closest_chunks))
       \<and> (length (kept top_n closest_chunks)
             + length (fresh_urls base st top_n closest_chunks) < nat top_n \<longrightarrow>
            (\<forall>rs. deduplicate_results base st closest_chunks top_n rs = None))
       \<and> \<not> (\<exists>rs ctxs fns rs'.
              deduplicate_results base st closest_chunks top_n rs = Some ((ctxs, fns), rs')
              \<and> (length fns < nat top_n \<or> length ctxs < nat top_n))"
proof (intro conjI)
  show "(\<exists>rs. deduplicate_results base st closest_chunks top_n rs \<noteq> None) \<longleftrightarrow>
            nat top_n \<le> length (kept top_n closest_chunks)
                          + length (fresh_urls base st top_n closest_chunks)"
    using deduplicate_results_diverges[OF assms, of top_n base st]
          deduplicate_results_can_return[OF assms, of top_n base st]
    by (meson not_le)
  show "length (kept top_n closest_chunks)
             + length (fresh_urls base st top_n closest_chunks) < nat top_n \<longrightarrow>
            (\<forall>rs. deduplicate_results base st closest_chunks top_n rs = None)"
    using deduplicate_results_diverges[OF assms] by blast
  show "\<not> (\<exists>rs ctxs fns rs'.
              deduplicate_results base st closest_chunks top_n rs = Some ((ctxs, fns), rs')
              \<and> (length fns < nat top_n \<or> length ctxs < nat top_n))"
  proof
    assume "\<exists>rs ctxs fns rs'.
              deduplicate_results base st closest_chunks top_n rs = Some ((ctxs, fns), rs')
              \<and> (length fns < nat top_n \<or> length ctxs < nat top_n)"
    then obtain rs ctxs fns rs' where
      d: "deduplicate_results base st closest_chunks top_n rs = Some ((ctxs, fns), rs')"
      and short: "length fns < nat top_n \<or> length ctxs < nat top_n" by blast
    from short have pos: "0 \<le> top_n" by auto
    from deduplicate_results_lengths[OF assms pos d] short show False by simp
  qed
qed

theorem deduplicate_results_entries_witness:
  "duplicated_candidates \<noteq> [] \<and> (0::int) \<le> 3 \<and>
   deduplicate_results archive three_documents duplicated_candidates 3 [Answer 0, Answer 2] =
     Some (([''x'', ''z'', ''No additional unique content available''],
            [Some ''https://archive.example/a'', Some ''https://archive.example/b'',
             Some ''https://archive.example/c'']), [])
   \<and> distinct [Some ''https://archive.example/a'', Some ''https://archive.example/b'',
                Some ''https://archive.example/c'']
   \<and> kept 3 duplicated_candidates = [(''x'', Some ''https://archive.example/a''),
                                      (''z'', Some ''https://archive.example/b'')]
   \<and> (\<forall>rs. deduplicate_results archive three_documents duplicated_candidates 2 rs =
             Some (([''x'', ''z''],
                    [Some ''https://archive.example/a'', Some ''https://archive.example/b'']), rs))"
proof -
  have ne: "duplicated_candidates \<noteq> []" by (simp add: duplicated_candidates_def)
  have d: "deduplicate_results archive three_documents duplicated_candidates 3 [Answer 0, Answer 2] =
     Some (([''x'', ''z'', ''No additional unique content available''],
            [Some ''https://archive.example/a'', Some ''https://archive.example/b'',
             Some ''https://archive.example/c'']), [])"
    by code_simp
  have k3: "kept 3 duplicated_candidates = [(''x'', Some ''https://archive.example/a''),
                                      (''z'', Some ''https://archive.example/b'')]"
    by code_simp
  have k2: "kept 2 duplicated_candidates = [(''x'', Some ''https://archive.example/a''),
                                      (''z'', Some ''https://archive.example/b'')]"
    by code_simp
  have f: "nat 2 \<le> length (first_occurrences duplicated_candidates)" by code_simp
  have n3: "(0::int) \<le> 3" and n2: "(0::int) \<le> 2" by simp_all
  note t3 = deduplicate_results_entries[OF ne n3, of archive three_documents]
  note t2 = deduplicate_results_entries[OF ne n2, of archive three_documents]
  from t3 d have dist: "distinct [Some ''https://archive.example/a'', Some ''https://archive.example/b'',
                Some ''https://archive.example/c'']" by blast
  from t2 f k2 have tot: "\<forall>rs. deduplicate_results archive three_documents duplicated_candidates 2 rs =
             Some (([''x'', ''z''],
                    [Some ''https://archive.example/a'', Some ''https://archive.example/b'']), rs)"
    by simp
  from ne d dist k3 tot show ?thesis by simp
qed

text \<open>
  A corpus of one document, one candidate of that document and \<open>top_n = 2\<close>: every draw
  gives the url already seen, and after any number of replies the loop is still running.
\<close>

theorem deduplicate_results_one_document_counterexample:
  "abc_table one_document \<noteq> [] \<and>
   (\<forall>rs. deduplicate_results archive one_document
            [(''ctx'', Some ''https://archive.example/a'')] 2 rs = None)"
proof -
  have "length (kept 2 [(''ctx'', Some ''https://archive.example/a'')])
          + length (fresh_urls archive one_document 2 [(''ctx'', Some ''https://archive.example/a'')])
        < nat 2"
    by code_simp
  then have "\<forall>rs. deduplicate_results archive one_document
            [(''ctx'', Some ''https://archive.example/a'')] 2 rs = None"
    by (simp add: deduplicate_results_diverges)
  moreover have "abc_table one_document \<noteq> []" by (simp add: one_document_def)
  ultimately show ?thesis by simp
qed

theorem deduplicate_results_returns_iff_witness:
  "duplicated_candidates \<noteq> [] \<and>
   (\<exists>rs. deduplicate_results archive three_documents duplicated_candidates 3 rs \<noteq> None) \<and>
   (\<forall>rs. deduplicate_results archive three_documents duplicated_candidates 4 rs = None)"
proof -
  have ne: "duplicated_candidates \<noteq> []" by (simp add: duplicated_candidates_def)
  have e3: "nat 3 \<le> length (kept 3 duplicated_candidates)
                      + length (fresh_urls archive three_documents 3 duplicated_candidates)"
    by code_simp
  have e4: "length (kept 4 duplicated_candidates)
              + length (fresh_urls archive three_documents 4 duplicated_candidates) < nat 4"
    by code_simp
  from deduplicate_results_returns_iff[OF ne, of archive three_documents 3] e3
  have a: "\<exists>rs. deduplicate_results archive three_documents duplicated_candidates 3 rs \<noteq> None"
    by blast
  from deduplicate_results_returns_iff[OF ne, of archive three_documents 4] e4
  have b: "\<forall>rs. deduplicate_results archive three_documents duplicated_candidates 4 rs = None"
    by blast
  from ne a b show ?thesis by blast
qed

text \<open>
  The exhausted case: both documents of the corpus are among the candidates and
  \<open>top_n = 3\<close>. No result, short or not, is returned.
\<close>

theorem deduplicate_results_exhausted_counterexample:
  "(\<forall>rs. deduplicate_results archive two_documents
            [(''p'', Some ''https://archive.example/a''),
             (''q'', Some ''https://archive.example/b'')] 3 rs = None)
   \<and> deduplicate_results archive two_documents
            [(''p'', Some ''https://archive.example/a''),
             (''q'', Some ''https://archive.example/b'')] 3
            [Answer 0, Answer 1, Fault, Answer 1, Answer 0, Answer 7] = None"
proof -
  have "length (kept 3 [(''p'', Some ''https://archive.example/a''),
                        (''q'', Some ''https://archive.example/b'')])
          + length (fresh_urls archive two_documents 3
                      [(''p'', Some ''https://archive.example/a''),
                       (''q'', Some ''https://archive.example/b'')])
        < nat 3"
    by code_simp
  then show ?thesis
    by (simp add: deduplicate_results_diverges)
qed

subsection \<open>Keyword stage\<close>

lemma contains_in_order_Cons:
  "contains_in_order (w # ws) t \<longleftrightarrow> (\<exists>pre post. t = pre @ w @ post \<and> contains_in_order ws post)"
proof (induction t)
  case Nil
  then show ?case by auto
next
  case (Cons c cs)
  show ?case
  proof
    assume "contains_in_order (w # ws) (c # cs)"
    then consider
      (here) "take (length w) (c # cs) = w" "contains_in_order ws (drop (length w) (c # cs))"
      | (later) "contains_in_order (w # ws) cs" by auto
    then show "\<exists>pre post. c # cs = pre @ w @ post \<and> contains_in_order ws post"
    proof cases
      case here
      have "c # cs = [] @ take (length w) (c # cs) @ drop (length w) (c # cs)" by simp
      with here show ?thesis by metis
    next
      case later
      with Cons.IH obtain pre post where "cs = pre @ w @ post" "contains_in_order ws post" by blast
      then have "c # cs = (c # pre) @ w @ post \<and> contains_in_order ws post" by simp
      then show ?thesis by blast
    qed
  next
    assume "\<exists>pre post. c # cs = pre @ w @ post \<and> contains_in_order ws post"
    then obtain pre post where t: "c # cs = pre @ w @ post" and p: "contains_in_order ws post" by blast
    show "contains_in_order (w # ws) (c # cs)"
    proof (cases pre)
      case Nil
      with t have "take (length w) (c # cs) = w" "drop (length w) (c # cs) = post" by simp_all
      with p show ?thesis by simp
    next
      case (Cons a pre')
      with t have "cs = pre' @ w @ post" by simp
      with p Cons.IH have "contains_in_order (w # ws) cs" by blast
      then show ?thesis by simp
    qed
  qed
qed

lemma like_match_percent:
  "like_match (CHR ''%'' # p) t \<longleftrightarrow> (\<exists>pre post. t = pre @ post \<and> like_match p post)"
proof (induction t)
  case Nil
  then show ?case by simp
next
  case (Cons c cs)
  show ?case
  proof
    assume "like_match (CHR ''%'' # p) (c # cs)"
    then consider "like_match p (c # cs)" | "like_match (CHR ''%'' # p) cs" by auto
    then show "\<exists>pre post. c # cs = pre @ post \<and> like_match p post"
    proof cases
      case 1
      then have "c # cs = [] @ (c # cs) \<and> like_match p (c # cs)" by simp
      then show ?thesis by blast
    next
      case 2
      with Cons.IH obtain pre post where "cs = pre @ post" "like_match p post" by blast
      then have "c # cs = (c # pre) @ post \<and> like_match p post" by simp
      then show ?thesis by blast
    qed
  next
    assume "\<exists>pre post. c # cs = pre @ post \<and> like_match p post"
    then obtain pre post where t: "c # cs = pre @ post" and m: "like_match p post" by blast
    show "like_match (CHR ''%'' # p) (c # cs)"
    proof (cases pre)
      case Nil
      with t have "post = c # cs" by simp
      with m have "like_match p (c # cs)" by simp
      then show ?thesis by simp
    next
      case (Cons a pre')
      with t have "cs = pre' @ post" by simp
      with m Cons.IH have "like_match (CHR ''%'' # p) cs" by blast
      then show ?thesis by simp
    qed
  qed
qed

lemma like_match_literal:
  "\<forall>c \<in> set w. c \<noteq> CHR ''%'' \<and> c \<noteq> CHR ''_'' \<Longrightarrow>
     like_match (w @ p) t \<longleftrightarrow> (\<exists>post. t = w @ post \<and> like_match p post)"
proof (induction w arbitrary: t)
  case Nil
  then show ?case by simp
next
  case (Cons a w)
  then show ?case by (cases t) auto
qed

lemma like_match_any: "like_match ''%'' t"
  by (induction t) auto

lemma word_query_Cons:
  "word_query (w # ws) = CHR ''%'' # w @ (if ws = [] then ''%'' else word_query ws)"
  by (cases ws) (simp_all add: word_query_def)

lemma like_match_word_query:
  "\<forall>w \<in> set ws. \<forall>c \<in> set w. c \<noteq> CHR ''%'' \<and> c \<noteq> CHR ''_'' \<Longrightarrow>
     like_match (word_query ws) t \<longleftrightarrow> contains_in_order ws t"
proof (induction ws arbitrary: t)
  case Nil
  have "like_match ''%%'' t \<longleftrightarrow> (\<exists>pre post. t = pre @ post \<and> like_match ''%'' post)"
    by (rule like_match_percent)
  then show ?case using like_match_any by (auto simp: word_query_def)
next
  case (Cons w ws)
  have lit: "\<forall>c \<in> set w. c \<noteq> CHR ''%'' \<and> c \<noteq> CHR ''_''" using Cons.prems by simp
  let ?tail = "if ws = [] then ''%'' else word_query ws"
  have tail: "like_match ?tail post \<longleftrightarrow> contains_in_order ws post" for post
  proof (cases "ws = []")
    case True
    then show ?thesis using like_match_any by simp
  next
    case False
    then show ?thesis using Cons.IH Cons.prems by simp
  qed
  have "like_match (word_query (w # ws)) t \<longleftrightarrow>
          (\<exists>pre post. t = pre @ post \<and> like_match (w @ ?tail) post)"
    unfolding word_query_Cons by (rule like_match_percent)
  also have "\<dots> \<longleftrightarrow> (\<exists>pre post. t = pre @ w @ post \<and> like_match ?tail post)"
    using like_match_literal[OF lit, of ?tail] by blast
  also have "\<dots> \<longleftrightarrow> (\<exists>pre post. t = pre @ w @ post \<and> contains_in_order ws post)"
    using tail by simp
  also have "\<dots> \<longleftrightarrow> contains_in_order (w # ws) t"
    by (rule contains_in_order_Cons[symmetric])
  finally show ?case .
qed

lemma lower_char_percent: "lower_char c = CHR ''%'' \<longleftrightarrow> c = CHR ''%''"
  by (auto simp: lower_char_def split: option.splits if_splits)

lemma lower_char_underscore: "lower_char c = CHR ''_'' \<longleftrightarrow> c = CHR ''_''"
  by (auto simp: lower_char_def split: option.splits if_splits)

lemma lower_append: "lower (a @ b) = lower a @ lower b"
  by (simp add: lower_def)

lemma lower_Cons_percent: "lower (CHR ''%'' # s) = CHR ''%'' # lower s"
  by (simp add: lower_def lower_char_def)

lemma lower_Nil: "lower [] = []"
  by (simp add: lower_def)

lemma lower_py_join: "lower (py_join ''%'' ws) = py_join ''%'' (map lower ws)"
proof (induction ws rule: induct_list012)
  case 1
  then show ?case by (simp add: lower_def)
next
  case (2 x)
  then show ?case by simp
next
  case (3 x y zs)
  then show ?case by (simp add: lower_append lower_Cons_percent)
qed

lemma lower_word_query: "lower (word_query ws) = word_query (map lower ws)"
  by (simp add: word_query_def lower_append lower_py_join lower_Cons_percent lower_Nil)

lemma plain_word_lower:
  assumes "\<forall>w \<in> set ws. plain_word w"
  shows "\<forall>w \<in> set (map lower ws). \<forall>c \<in> set w. c \<noteq> CHR ''%'' \<and> c \<noteq> CHR ''_''"
  using assms by (auto simp: plain_word_def lower_def lower_char_percent lower_char_underscore)

text \<open>
  C3 (as amended). When no important word contains \<open>%\<close>, \<open>_\<close>, a backslash or a quote,
  Stage 1 returns exactly the chunks whose lowercased text contains the lowercased words in
  the given order, each after the end of the one before, with any text between; that is,
  the text is some prefix, the first word, and a rest that contains the remaining words in
  the same way. An underscore in a word matches any one character: see the counterexample.
\<close>

theorem keyword_stage_ordered_pattern:
  assumes "\<forall>w \<in> set important_words. plain_word w"
  shows "matched_chunks st important_words (Answer n # rs) =
           Some (Inr (filter (\<lambda>c. contains_in_order (map lower important_words) (lower (chunk_text c)))
                             (abc_chunks st)), rs)
       \<and> (\<forall>c. c \<in> set (keyword_matching_query st important_words) \<longleftrightarrow>
                c \<in> set (abc_chunks st) \<and>
                contains_in_order (map lower important_words) (lower (chunk_text c)))
       \<and> (\<forall>w ws t. contains_in_order (w # ws) t \<longleftrightarrow>
                (\<exists>pre post. t = pre @ w @ post \<and> contains_in_order ws post))"
proof -
  have m: "like_match (lower (word_query important_words)) t
             \<longleftrightarrow> contains_in_order (map lower important_words) t" for t
    unfolding lower_word_query
    by (rule like_match_word_query[OF plain_word_lower[OF assms]])
  then have q: "keyword_matching_query st important_words =
     filter (\<lambda>c. contains_in_order (map lower important_words) (lower (chunk_text c))) (abc_chunks st)"
    by (simp add: keyword_matching_query_def)
  show ?thesis using q contains_in_order_Cons by auto
qed

theorem keyword_stage_ordered_pattern_witness:
  "plain_word ''rent'' \<and> plain_word ''control'' \<and>
   matched_chunks rent_corpus [''rent'', ''control''] [Answer 0] =
     Some (Inr [\<lparr>c_id = 0, summary_id = ''d1'', chunk_text = ''Rent control laws''\<rparr>,
                \<lparr>c_id = 2, summary_id = ''d1'', chunk_text = ''The RENT is under strict CONTROL''\<rparr>], [])
   \<and> \<lparr>c_id = 1, summary_id = ''d1'', chunk_text = ''Control of the rent''\<rparr>
        \<notin> set (keyword_matching_query rent_corpus [''rent'', ''control''])"
proof -
  have p: "\<forall>w \<in> set [''rent'', ''control'']. plain_word w"
    by (simp add: plain_word_def)
  have e: "filter (\<lambda>c. contains_in_order (map lower [''rent'', ''control'']) (lower (chunk_text c)))
             (abc_chunks rent_corpus)
           = [\<lparr>c_id = 0, summary_id = ''d1'', chunk_text = ''Rent control laws''\<rparr>,
              \<lparr>c_id = 2, summary_id = ''d1'', chunk_text = ''The RENT is under strict CONTROL''\<rparr>]"
    by code_simp
  have n: "\<not> contains_in_order (map lower [''rent'', ''control'']) (lower ''Control of the rent'')"
    by code_simp
  have pw: "plain_word ''rent''" "plain_word ''control''" using p by simp_all
  from keyword_stage_ordered_pattern[OF p, of rent_corpus 0 "[]"] e
  have m: "matched_chunks rent_corpus [''rent'', ''control''] [Answer 0] =
     Some (Inr [\<lparr>c_id = 0, summary_id = ''d1'', chunk_text = ''Rent control laws''\<rparr>,
                \<lparr>c_id = 2, summary_id = ''d1'', chunk_text = ''The RENT is under strict CONTROL''\<rparr>], [])"
    by simp
  from keyword_stage_ordered_pattern[OF p, of rent_corpus 0 "[]"] n
  have x: "\<lparr>c_id = 1, summary_id = ''d1'', chunk_text = ''Control of the rent''\<rparr>
        \<notin> set (keyword_matching_query rent_corpus [''rent'', ''control''])"
    by simp
  from pw m x show ?thesis by blast
qed

text \<open>
  The word \<open>a_b\<close>, which \<open>extract_important_words\<close> can produce, selects the chunk
  \<open>axb\<close>, whose text does not contain the word.
\<close>

theorem keyword_stage_underscore_counterexample:
  "keyword_matching_query rent_corpus [''a_b''] =
      [\<lparr>c_id = 3, summary_id = ''d1'', chunk_text = ''axb''\<rparr>]
   \<and> \<not> contains_in_order (map lower [''a_b'']) (lower ''axb'')"
  by code_simp

subsection \<open>Context expander\<close>





subsection \<open>Description extractor\<close>

lemma q_first_chunk_lowest:
  assumes "q_first_chunk st sid = full # rest"
  shows "\<exists>c \<in> set (abc_chunks st). summary_id c = sid \<and> chunk_text c = full \<and>
           (\<forall>c' \<in> set (abc_chunks st). summary_id c' = sid \<longrightarrow> c_id c \<le> c_id c')"
proof -
  let ?xs = "sort_key c_id (filter (\<lambda>c. summary_id c = sid) (abc_chunks st))"
  from assms obtain c rest where xs: "?xs = c # rest" and f: "chunk_text c = full"
    by (cases ?xs) (auto simp: q_first_chunk_def)
  have s: "sorted (map c_id ?xs)" by simp
  have set_xs: "set ?xs = {c \<in> set (abc_chunks st). summary_id c = sid}" by auto
  have "c \<in> set ?xs" using xs by simp
  then have c: "c \<in> set (abc_chunks st)" "summary_id c = sid" using set_xs by auto
  have "c_id c \<le> c_id c'" if "c' \<in> set (abc_chunks st)" "summary_id c' = sid" for c'
  proof -
    from that have "c' \<in> set (c # rest)" using set_xs xs by auto
    then show ?thesis using s unfolding xs by auto
  qed
  with c f show ?thesis by blast
qed

text \<open>
  C9. When the document of a url is found and has a chunk, and the store answers both
  queries, \<open>get_pdf_description\<close> returns the text of a chunk of that document with the
  lowest id: its first 247 characters followed by three dots, 250 characters in all, when
  the text is longer than 250 characters, and the text unchanged otherwise.
\<close>

theorem get_pdf_description_truncates:
  assumes "q_id_by_filename st (lookup_filename filename) = sid # others"
      and "q_first_chunk st sid = full # rest"
  shows "get_pdf_description st filename (Answer n # Answer m # rs) = Some (description full, rs)
       \<and> (250 < length full \<longrightarrow>
            description full = take 247 full @ ''...'' \<and> length (description full) = 250)
       \<and> (length full \<le> 250 \<longrightarrow> description full = full)
       \<and> (\<exists>c \<in> set (abc_chunks st). summary_id c = sid \<and> chunk_text c = full \<and>
             (\<forall>c' \<in> set (abc_chunks st). summary_id c' = sid \<longrightarrow> c_id c \<le> c_id c'))"
  using assms q_first_chunk_lowest[OF assms(2)]
  by (simp add: description_def)

theorem get_pdf_description_truncates_witness:
  "q_id_by_filename report_corpus (lookup_filename ''https://archive.example/report'') = [''r1'']
   \<and> q_first_chunk report_corpus ''r1'' = [replicate 300 CHR ''x'']
   \<and> get_pdf_description report_corpus ''https://archive.example/report'' [Answer 0, Answer 0]
       = Some (replicate 247 CHR ''x'' @ ''...'', [])
   \<and> length (replicate 247 CHR ''x'' @ ''...'') = 250
   \<and> q_id_by_filename report_corpus (lookup_filename ''https://archive.example/memo'') = [''r2'']
   \<and> q_first_chunk report_corpus ''r2'' = [''short memo'']
   \<and> get_pdf_description report_corpus ''https://archive.example/memo'' [Answer 0, Answer 0]
       = Some (''short memo'', [])"
proof -
  have a: "q_id_by_filename report_corpus (lookup_filename ''https://archive.example/report'') = [''r1'']"
    by code_simp
  have b: "q_first_chunk report_corpus ''r1'' = [replicate 300 CHR ''x'']"
    by code_simp
  have c: "q_id_by_filename report_corpus (lookup_filename ''https://archive.example/memo'') = [''r2'']"
    by code_simp
  have d: "q_first_chunk report_corpus ''r2'' = [''short memo'']"
    by code_simp
  have l: "250 < length (replicate 300 CHR ''x'')" "take 247 (replicate 300 CHR ''x'') = replicate 247 CHR ''x''"
    by simp_all
  have s: "length ''short memo'' \<le> 250" by simp
  from get_pdf_description_truncates[OF a b, of 0 0 "[]"] l
  have r1: "get_pdf_description report_corpus ''https://archive.example/report'' [Answer 0, Answer 0]
       = Some (replicate 247 CHR ''x'' @ ''...'', [])" by simp
  from get_pdf_description_truncates[OF c d, of 0 0 "[]"] s
  have r2: "get_pdf_description report_corpus ''https://archive.example/memo'' [Answer 0, Answer 0]
       = Some (''short memo'', [])" by simp
  from a b c d r1 r2 show ?thesis by simp
qed

subsection \<open>Filename / URL resolver\<close>






text \<open>
  C7 (as amended). \<open>get_original_filename\<close> hands over to \<open>get_random_filename\<close>
  whenever its query faults, finds no document, or the transformation raises.
  \<open>get_random_filename\<close> always returns; it applies the same transformation to a document
  of the corpus chosen by the store, and returns \<open>None\<close> exactly when the query faults,
  the corpus is empty, or the transformation of the chosen filename raises.
  \<open>get_original_filename\<close> returns \<open>None\<close> only when its fallback does.
\<close>

theorem resolver_fallback:
  "((r = Fault \<or> q_original_filename st sid = [] \<or>
      (\<exists>stored others e. q_original_filename st sid = stored # others \<and> file_url base stored = Inl e))
     \<longrightarrow> get_original_filename base st sid (r # rs) = get_random_filename base st rs)
   \<and> (get_random_filename base st (r # rs) = Some (None, rs) \<longleftrightarrow>
        r = Fault \<or> abc_table st = [] \<or>
        (\<exists>n e. r = Answer n \<and>
           file_url base (original_filename (abc_table st ! (n mod length (abc_table st)))) = Inl e))
   \<and> (\<forall>u. get_random_filename base st (r # rs) = Some (Some u, rs) \<longrightarrow>
          (\<exists>d \<in> set (abc_table st). file_url base (original_filename d) = Inr u))
   \<and> (\<exists>v. get_random_filename base st (r # rs) = Some (v, rs))
   \<and> (\<forall>rs'. get_original_filename base st sid (r # rs) = Some (None, rs') \<longrightarrow>
          get_random_filename base st rs = Some (None, rs'))"
proof (intro conjI)
  show "(r = Fault \<or> q_original_filename st sid = [] \<or>
      (\<exists>stored others e. q_original_filename st sid = stored # others \<and> file_url base stored = Inl e))
     \<longrightarrow> get_original_filename base st sid (r # rs) = get_random_filename base st rs"
    by (cases r) auto
  show "get_random_filename base st (r # rs) = Some (None, rs) \<longleftrightarrow>
        r = Fault \<or> abc_table st = [] \<or>
        (\<exists>n e. r = Answer n \<and>
           file_url base (original_filename (abc_table st ! (n mod length (abc_table st)))) = Inl e)"
    by (cases r) (auto simp: q_random_filename_def split: sum.splits)
  show "\<forall>u. get_random_filename base st (r # rs) = Some (Some u, rs) \<longrightarrow>
          (\<exists>d \<in> set (abc_table st). file_url base (original_filename d) = Inr u)"
    by (cases r) (auto simp: q_random_filename_def split: sum.splits if_splits)
  show "\<exists>v. get_random_filename base st (r # rs) = Some (v, rs)"
    by (cases r) (auto split: list.splits sum.splits)
  show "\<forall>rs'. get_original_filename base st sid (r # rs) = Some (None, rs') \<longrightarrow>
          get_random_filename base st rs = Some (None, rs')"
    by (cases r) (auto split: list.splits sum.splits)
qed

theorem resolver_fallback_witness:
  "q_original_filename three_documents ''unknown'' = []
   \<and> get_original_filename archive three_documents ''unknown'' [Answer 0, Answer 1]
       = Some (Some ''https://archive.example/b'', [])
   \<and> get_original_filename archive three_documents ''d1'' [Fault, Answer 2]
       = Some (Some ''https://archive.example/c'', [])
   \<and> abc_table empty_corpus = []
   \<and> get_random_filename archive empty_corpus [Answer 0] = Some (None, [])
   \<and> get_original_filename archive empty_corpus ''d1'' [Answer 0, Answer 0] = Some (None, [])"
proof -
  have q: "q_original_filename three_documents ''unknown'' = []" by code_simp
  have r1: "get_random_filename archive three_documents [Answer 1]
              = Some (Some ''https://archive.example/b'', [])" by code_simp
  have r2: "get_random_filename archive three_documents [Answer 2]
              = Some (Some ''https://archive.example/c'', [])" by code_simp
  have e: "abc_table empty_corpus = []" by (simp add: empty_corpus_def)
  have qe: "q_original_filename empty_corpus ''d1'' = []" by code_simp
  from resolver_fallback[of "Answer 0" three_documents "''unknown''" archive "[Answer 1]"] q r1
  have a: "get_original_filename archive three_documents ''unknown'' [Answer 0, Answer 1]
       = Some (Some ''https://archive.example/b'', [])" by simp
  from resolver_fallback[of Fault three_documents "''d1''" archive "[Answer 2]"] r2
  have b: "get_original_filename archive three_documents ''d1'' [Fault, Answer 2]
       = Some (Some ''https://archive.example/c'', [])" by simp
  from resolver_fallback[of "Answer 0" empty_corpus "''d1''" archive "[]"] e
  have c: "get_random_filename archive empty_corpus [Answer 0] = Some (None, [])" by blast
  from resolver_fallback[of "Answer 0" empty_corpus "''d1''" archive "[Answer 0]"] qe c
  have d: "get_original_filename archive empty_corpus ''d1'' [Answer 0, Answer 0] = Some (None, [])"
    by simp
  from q a b e c d show ?thesis by blast
qed

text \<open>
  A corpus that is not empty and a store that answers, and yet \<open>None\<close>: \<open>urlparse\<close>
  raises on the stored filename \<open>//[\<close>.
\<close>

theorem get_random_filename_bracket_counterexample:
  "abc_table bracket_corpus \<noteq> []
   \<and> get_random_filename archive bracket_corpus [Answer 0] = Some (None, [])
   \<and> file_url archive ''//['' = Inl ValueError"
  by code_simp

subsection \<open>Pipeline orchestrator\<close>






end
